theory Spec2Isabelle
  imports Main "HOL-Library.Sublist"
begin

unbundle bit_operations_syntax

section \<open>Characters and strings of the Python source\<close>

text \<open>
  A Python \<^verbatim>\<open>str\<close> is a sequence of code points. The development models it as a
  \<^typ>\<open>string\<close>, reading each \<^typ>\<open>char\<close> as one code point in the range 0..255
  (Latin-1 text). On that range the character classes of Python 3 are the finite tables
  below: \<^verbatim>\<open>\d\<close> of the \<^verbatim>\<open>re\<close> module matches the ten ASCII digits only, and
  \<^verbatim>\<open>\s\<close>, \<^verbatim>\<open>str.strip()\<close> and \<^verbatim>\<open>str.isspace()\<close> agree on twelve code points.
\<close>

definition is_digit :: "char \<Rightarrow> bool" where
  "is_digit c = (c \<in> set ''0123456789'')"

definition is_space :: "char \<Rightarrow> bool" where
  "is_space c = ((of_char c :: nat) \<in> {9, 10, 11, 12, 13, 28, 29, 30, 31, 32, 133, 160})"

definition lower_char :: "char \<Rightarrow> char" where
  \<comment> \<open>\<^verbatim>\<open>str.lower()\<close> on one code point below 256: A-Z and the Latin-1 capitals
      (192..222 without the multiplication sign 215) move up by 32.\<close>
  "lower_char c =
     (let n = (of_char c :: nat)
      in if (65 \<le> n \<and> n \<le> 90) \<or> (192 \<le> n \<and> n \<le> 222 \<and> n \<noteq> 215)
         then char_of (n + 32) else c)"

definition lower :: "string \<Rightarrow> string" where
  "lower s = map lower_char s"

definition startswith :: "string \<Rightarrow> string \<Rightarrow> bool" where
  \<comment> \<open>\<^verbatim>\<open>s.startswith(p)\<close>\<close>
  "startswith s p = (take (length p) s = p)"

fun contains :: "string \<Rightarrow> string \<Rightarrow> bool" where
  \<comment> \<open>\<^verbatim>\<open>p in s\<close> for strings: \<open>p\<close> occurs in \<open>s\<close> as a contiguous block\<close>
  "contains [] p = (p = [])"
| "contains (c # cs) p = (startswith (c # cs) p \<or> contains cs p)"

section \<open>Phone validity (fetcher.py, BaseScraper)\<close>

definition clean_number :: "string \<Rightarrow> string" where
  \<comment> \<open>\<^verbatim>\<open>re.sub(r"\D", "", text)\<close>: every non-digit is deleted\<close>
  "clean_number text = filter is_digit text"

definition is_valid_phone :: "string \<Rightarrow> bool" where
  "is_valid_phone number =
     (let clean = clean_number number
      in if length clean < 8 \<or> length clean > 12 then False
         else if length clean \<ge> 13 then False
         else if length clean \<ge> 11 \<and> (startswith clean ''16'' \<or> startswith clean ''17'') then False
         else if card (set clean) = 1 then False
         else True)"

section \<open>Cloudflare email decoding (cleaner.py, BaseCleaner)\<close>

text \<open>
  The decoder calls \<^verbatim>\<open>int(chunk, 16)\<close> on slices of at most two characters and
  \<^verbatim>\<open>chr\<close> on the XOR of two results, inside \<^verbatim>\<open>try ... except Exception\<close>. Both
  built-ins raise \<^verbatim>\<open>ValueError\<close>; slicing never raises. The exception is a value of
  the model.
\<close>

datatype py_error = ValueError

definition is_int_space :: "char \<Rightarrow> bool" where
  \<comment> \<open>the whitespace \<^verbatim>\<open>int()\<close> skips on both sides of a numeral\<close>
  "is_int_space c = ((of_char c :: nat) \<in> {9, 10, 11, 12, 13, 32, 133, 160})"

definition hex_val :: "char \<Rightarrow> nat option" where
  "hex_val c =
     (let n = (of_char c :: nat)
      in if 48 \<le> n \<and> n \<le> 57 then Some (n - 48)
         else if 97 \<le> n \<and> n \<le> 102 then Some (n - 87)
         else if 65 \<le> n \<and> n \<le> 70 then Some (n - 55)
         else None)"

definition is_hex :: "char \<Rightarrow> bool" where
  "is_hex c = (hex_val c \<noteq> None)"

fun double_underscore :: "string \<Rightarrow> bool" where
  "double_underscore (a # b # r) = ((a = CHR ''_'' \<and> b = CHR ''_'') \<or> double_underscore (b # r))"
| "double_underscore _ = False"

definition py_int16 :: "string \<Rightarrow> int option" where
  \<comment> \<open>\<^verbatim>\<open>int(s, 16)\<close>, \<open>None\<close> for \<^verbatim>\<open>ValueError\<close>: leading whitespace, one optional sign,
      an optional \<^verbatim>\<open>0x\<close> prefix (one underscore may follow it), then hexadecimal digits
      with single underscores between them, then trailing whitespace.\<close>
  "py_int16 s =
     (let s1 = dropWhile is_int_space s;
          neg = (s1 \<noteq> [] \<and> hd s1 = CHR ''-'');
          s2 = (if s1 \<noteq> [] \<and> (hd s1 = CHR ''-'' \<or> hd s1 = CHR ''+'') then tl s1 else s1);
          s3 = (if length s2 \<ge> 2 \<and> s2 ! 0 = CHR ''0'' \<and> (s2 ! 1 = CHR ''x'' \<or> s2 ! 1 = CHR ''X'')
                then (if length s2 \<ge> 3 \<and> s2 ! 2 = CHR ''_'' then drop 3 s2 else drop 2 s2)
                else s2);
          body = takeWhile (\<lambda>c. is_hex c \<or> c = CHR ''_'') s3;
          rest = dropWhile (\<lambda>c. is_hex c \<or> c = CHR ''_'') s3
      in if body = [] \<or> hd body = CHR ''_'' \<or> last body = CHR ''_'' \<or> double_underscore body
            \<or> \<not> list_all is_int_space rest
         then None
         else Some ((if neg then - 1 else 1) *
                    int (foldl (\<lambda>acc c. 16 * acc + the (hex_val c)) 0 (filter is_hex body))))"

definition py_chr :: "int \<Rightarrow> char option" where
  \<comment> \<open>\<^verbatim>\<open>chr(i)\<close>, \<open>None\<close> for \<^verbatim>\<open>ValueError\<close> (outside \<^verbatim>\<open>range(0x110000)\<close>). The decoder
      only reaches code points below 256, see \<open>decode_chunks_code_point\<close>.\<close>
  "py_chr i = (if 0 \<le> i \<and> i < 1114112 then Some (char_of i) else None)"

fun chunks2 :: "string \<Rightarrow> string list" where
  \<comment> \<open>the slices \<^verbatim>\<open>s[i:i+2]\<close> for \<^verbatim>\<open>i in range(0, len(s), 2)\<close>: the last one has one
      character when the length is odd\<close>
  "chunks2 [] = []"
| "chunks2 [a] = [[a]]"
| "chunks2 (a # b # r) = [a, b] # chunks2 r"

fun decode_chunks :: "int \<Rightarrow> string list \<Rightarrow> py_error + string" where
  \<comment> \<open>the generator \<^verbatim>\<open>chr(int(cfemail[i:i+2], 16) ^ n)\<close>, joined; the first exception ends it\<close>
  "decode_chunks n [] = Inr []"
| "decode_chunks n (c # cs) =
     (case py_int16 c of
        None \<Rightarrow> Inl ValueError
      | Some v \<Rightarrow>
          (case py_chr (v XOR n) of
             None \<Rightarrow> Inl ValueError
           | Some ch \<Rightarrow>
               (case decode_chunks n cs of Inl e \<Rightarrow> Inl e | Inr r \<Rightarrow> Inr (ch # r))))"

definition decode_cloudflare_email_try :: "string \<Rightarrow> py_error + string" where
  \<comment> \<open>the body of the \<^verbatim>\<open>try\<close> block\<close>
  "decode_cloudflare_email_try cfemail =
     (case py_int16 (take 2 cfemail) of
        None \<Rightarrow> Inl ValueError
      | Some n \<Rightarrow> decode_chunks n (chunks2 (drop 2 cfemail)))"

definition decode_cloudflare_email :: "string \<Rightarrow> string" where
  "decode_cloudflare_email cfemail =
     (case decode_cloudflare_email_try cfemail of Inl e \<Rightarrow> [] | Inr s \<Rightarrow> s)"


subsection \<open>The obfuscation, as the specification words it\<close>

text \<open>
  The repository only decodes. For the round trip the encoding side follows the
  specification: the key byte first, then each plaintext byte XOR'd with the key, every
  byte written as a pair of hexadecimal digits (in either letter case).
\<close>

definition hex_digit :: "bool \<Rightarrow> nat \<Rightarrow> char" where
  "hex_digit upper d = (if upper then ''0123456789ABCDEF'' else ''0123456789abcdef'') ! d"

definition hex_pair :: "bool \<Rightarrow> nat \<Rightarrow> string" where
  "hex_pair upper b = [hex_digit upper (b div 16), hex_digit upper (b mod 16)]"

definition encode_cloudflare_email :: "bool \<Rightarrow> nat \<Rightarrow> string \<Rightarrow> string" where
  "encode_cloudflare_email upper key email =
     hex_pair upper key @ concat (map (\<lambda>c. hex_pair upper (of_char c XOR key)) email)"

section \<open>Parsed documents\<close>

text \<open>
  Both \<open>detect_framework\<close> and \<open>clean_html\<close> start with
  \<^verbatim>\<open>BeautifulSoup(html, "html.parser")\<close>. The parser is a library outside the repository;
  the functions below take its result, the parse tree, as their input (next to the markup
  text, where the code reads that too). A tree node is a text string, a comment or a tag
  with its name (lower case, as the parser delivers it), its attribute dictionary and
  its children. With \<^verbatim>\<open>html.parser\<close> the tree holds the tags of the markup only: no
  \<^verbatim>\<open>html\<close> or \<^verbatim>\<open>body\<close> tag is added to a fragment that has none.
\<close>

datatype node =
  Text string
| Comment string
| Element string "(string \<times> string) list" "node list"

fun tag_name :: "node \<Rightarrow> string" where
  "tag_name (Element n a cs) = n"
| "tag_name _ = []"

fun tag_attrs :: "node \<Rightarrow> (string \<times> string) list" where
  "tag_attrs (Element n a cs) = a"
| "tag_attrs _ = []"

fun contents :: "node \<Rightarrow> node list" where
  "contents (Element n a cs) = cs"
| "contents _ = []"

fun is_tag :: "node \<Rightarrow> bool" where
  "is_tag (Element n a cs) = True"
| "is_tag _ = False"

fun tags :: "node \<Rightarrow> node list" where
  \<comment> \<open>a tag and the tags below it, in document order\<close>
  "tags (Element n a cs) = Element n a cs # concat (map tags cs)"
| "tags _ = []"

definition descendant_tags :: "node list \<Rightarrow> node list" where
  "descendant_tags cs = concat (map tags cs)"

definition find_all :: "string list \<Rightarrow> node list \<Rightarrow> node list" where
  \<comment> \<open>\<^verbatim>\<open>find_all([names])\<close> on a tag or on the soup with children \<open>cs\<close>\<close>
  "find_all names cs = filter (\<lambda>e. tag_name e \<in> set names) (descendant_tags cs)"

definition soup_body :: "node list \<Rightarrow> node option" where
  \<comment> \<open>\<^verbatim>\<open>soup.body\<close>: the first tag named body, \<open>None\<close> when the document has none\<close>
  "soup_body soup = find (\<lambda>e. tag_name e = ''body'') (descendant_tags soup)"

section \<open>Framework detection (fetcher.py, BaseScraper.detect_framework)\<close>

record framework_info =
  frameworks_detected :: "string list"
  is_spa_like :: bool
  is_html_traditional :: bool

definition is_quote :: "char \<Rightarrow> bool" where
  \<comment> \<open>the class \<^verbatim>\<open>["\']\<close>\<close>
  "is_quote c = (c = CHR 0x22 \<or> c = CHR 0x27)"

definition id_root_here :: "string \<Rightarrow> bool" where
  \<comment> \<open>\<^verbatim>\<open>id=["\']root["\']\<close> at the start of a text\<close>
  "id_root_here t =
     (9 \<le> length t \<and> take 3 t = ''id='' \<and> is_quote (t ! 3)
      \<and> take 4 (drop 4 t) = ''root'' \<and> is_quote (t ! 8))"

fun attrs_then_id_root :: "string \<Rightarrow> bool" where
  \<comment> \<open>\<^verbatim>\<open>[^>]+id=["\']root["\']\<close> at the start of a text: one or more characters other
      than \<^verbatim>\<open>>\<close>, then the attribute\<close>
  "attrs_then_id_root [] = False"
| "attrs_then_id_root (c # cs) = (c \<noteq> CHR ''>'' \<and> (id_root_here cs \<or> attrs_then_id_root cs))"

fun search_div_root :: "string \<Rightarrow> bool" where
  \<comment> \<open>\<^verbatim>\<open>re.search(r"<div[^>]+id=[\"\']root[\"\']", s)\<close> finds a match\<close>
  "search_div_root [] = False"
| "search_div_root (c # cs) =
     ((startswith (c # cs) ''<div'' \<and> attrs_then_id_root (drop 4 (c # cs))) \<or> search_div_root cs)"

definition detect_framework :: "string \<Rightarrow> node list \<Rightarrow> framework_info" where
  \<comment> \<open>\<open>soup\<close> is the parse tree of \<open>html\<close>\<close>
  "detect_framework html soup =
     (let lower_html = lower html;
          react = (contains lower_html ''data-reactroot'' \<or> contains lower_html ''reactroot''
                   \<or> contains lower_html ''__react'' \<or> contains lower_html ''react-dom''
                   \<or> search_div_root lower_html);
          vue = (contains lower_html ''id=\"app\"'' \<or> contains lower_html ''data-v-''
                 \<or> contains lower_html ''vue.js'' \<or> contains lower_html ''vue.runtime'');
          angular = (contains lower_html ''ng-app'' \<or> contains lower_html ''ng-version''
                     \<or> contains lower_html ''angular.js'' \<or> contains lower_html ''ng-'');
          nextjs = (contains lower_html ''__next'' \<or> contains lower_html ''/_next/''
                    \<or> contains lower_html ''next.config'');
          frameworks = [(''react'', react), (''vue'', vue), (''angular'', angular), (''nextjs'', nextjs)];
          body = soup_body soup;
          meaningful_tags = (case body of
                               None \<Rightarrow> 0
                             | Some b \<Rightarrow> length (find_all [''p'', ''h1'', ''h2'', ''h3'', ''li''] (contents b)));
          is_spa = list_ex snd frameworks;
          is_probably_html_normal = (\<not> is_spa \<and> meaningful_tags > 5)
      in \<lparr>frameworks_detected = map fst (filter snd frameworks),
          is_spa_like = is_spa,
          is_html_traditional = is_probably_html_normal\<rparr>)"

section \<open>Locator (text_utils.py, find_string_in_html)\<close>

record hit =
  hit_source :: string
  hit_match :: string
  hit_start :: nat
  hit_end :: nat
  hit_snippet :: string

fun match_digits :: "string \<Rightarrow> string \<Rightarrow> nat option" where
  \<comment> \<open>The pattern \<^verbatim>\<open>"".join(re.escape(ch) + r"\D*" for ch in target_digits)\<close> matched at
      the start of a text: the length of the match. Every digit of the pattern, the last
      one too, is followed by \<^verbatim>\<open>\D*\<close>, which is greedy; what follows it in the pattern
      is a digit or nothing, so giving characters back never helps.\<close>
  "match_digits [] text = Some 0"
| "match_digits (d # ds) [] = None"
| "match_digits (d # ds) (c # cs) =
     (if c = d
      then (let k = length (takeWhile (\<lambda>x. \<not> is_digit x) cs)
            in case match_digits ds (drop k cs) of
                 None \<Rightarrow> None
               | Some m \<Rightarrow> Some (1 + k + m))
      else None)"

definition match_literal :: "string \<Rightarrow> string \<Rightarrow> nat option" where
  \<comment> \<open>\<^verbatim>\<open>re.escape(target)\<close> under \<^verbatim>\<open>re.IGNORECASE\<close>, matched at the start of a text\<close>
  "match_literal target text =
     (if length target \<le> length text \<and> lower (take (length target) text) = lower target
      then Some (length target) else None)"

fun finditer :: "(string \<Rightarrow> nat option) \<Rightarrow> nat \<Rightarrow> string \<Rightarrow> (nat \<times> nat) list" where
  \<comment> \<open>\<^verbatim>\<open>re.finditer\<close>: the non-overlapping matches from the left, as (start, end). Both
      patterns of the locator match at least one character.\<close>
  "finditer m pos [] = []"
| "finditer m pos (c # cs) =
     (case m (c # cs) of
        None \<Rightarrow> finditer m (pos + 1) cs
      | Some n \<Rightarrow> (pos, pos + n) # finditer m (pos + max 1 n) (drop (n - 1) cs))"

definition py_slice :: "string \<Rightarrow> int \<Rightarrow> int \<Rightarrow> string" where
  \<comment> \<open>\<^verbatim>\<open>text[a:b]\<close>: a negative index counts from the end, both are clipped to the text\<close>
  "py_slice text a b =
     (let n = int (length text);
          clip = (\<lambda>i. if i < 0 then max 0 (i + n) else min i n);
          lo = nat (clip a); hi = nat (clip b)
      in take (hi - lo) (drop lo text))"

definition find_string_in_html :: "string \<Rightarrow> string \<Rightarrow> int \<Rightarrow> hit list" where
  "find_string_in_html target html context_chars =
     (if target = [] \<or> html = [] then []
      else
        (let target_digits = filter is_digit target;
             pattern = (if target_digits \<noteq> [] then match_digits target_digits
                        else match_literal target)
         in map (\<lambda>(s, e).
                  (let snippet_start = max 0 (int s - context_chars);
                       snippet_end = min (int (length html)) (int e + context_chars)
                   in \<lparr>hit_source = ''raw'',
                       hit_match = take (e - s) (drop s html),
                       hit_start = s, hit_end = e,
                       hit_snippet = py_slice html snippet_start snippet_end\<rparr>))
                (finditer pattern 0 html)))"

section \<open>Batch fetch (fetcher.py, DuckDuckGoScraper)\<close>

text \<open>
  \<open>fetch_html\<close> does its whole work inside \<^verbatim>\<open>try ... except Exception: return None\<close>.
  What the network and the analysis of one call do is an \<open>attempt\<close>: an exception raised
  somewhere in the block (the sleep, the request, \<^verbatim>\<open>raise_for_status\<close>, the decoding, the
  signal or framework detection), or the decoded page. The record keeps the fields of the
  returned dictionary; the two analysis results (\<^verbatim>\<open>signals\<close>, \<^verbatim>\<open>framework\<close>) are one field,
  computed from the page by the parameter \<open>analyse\<close>.
\<close>

datatype attempt = Raises | Page string

record 'a fetch_result =
  result_url :: string
  result_size :: nat
  result_analysis :: 'a
  result_html :: string

definition fetch_html :: "(string \<Rightarrow> 'a) \<Rightarrow> attempt \<Rightarrow> string \<Rightarrow> 'a fetch_result option" where
  "fetch_html analyse outcome url =
     (case outcome of
        Raises \<Rightarrow> None
      | Page html \<Rightarrow>
          Some \<lparr>result_url = url, result_size = length html,
                result_analysis = analyse html, result_html = html\<rparr>)"

text \<open>
  \<open>fetch_multiple\<close> submits one future per element of \<open>urls\<close> (the dictionary
  \<^verbatim>\<open>future_to_url\<close> is keyed by the futures, so a URL listed twice is fetched twice) and
  appends the records in the order in which \<^verbatim>\<open>as_completed\<close> yields the futures. The
  scheduling is a parameter: \<open>net i\<close> is the attempt of the future submitted for
  \<open>urls ! i\<close>, and \<open>order\<close> lists the indices of the futures as they complete.
  \<^verbatim>\<open>ThreadPoolExecutor\<close> raises \<^verbatim>\<open>ValueError\<close> when \<^verbatim>\<open>max_workers\<close> is not positive.
\<close>

definition fetch_multiple ::
  "(string \<Rightarrow> 'a) \<Rightarrow> (nat \<Rightarrow> attempt) \<Rightarrow> nat list \<Rightarrow> string list \<Rightarrow> int option
     \<Rightarrow> py_error + 'a fetch_result list" where
  "fetch_multiple analyse net order urls max_workers =
     (if urls = [] then Inr []
      else
        (let workers = (case max_workers of None \<Rightarrow> min 10 (int (length urls)) | Some m \<Rightarrow> m)
         in if workers \<le> 0 then Inl ValueError
            else Inr (List.map_filter (\<lambda>i. fetch_html analyse (net i) (urls ! i)) order)))"

definition completion_order :: "nat list \<Rightarrow> nat \<Rightarrow> bool" where
  \<comment> \<open>every one of the \<open>n\<close> futures completes exactly once\<close>
  "completion_order order n = (distinct order \<and> set order = {0..<n})"

section \<open>Text extraction (cleaner.py, HtmlCleaner.clean_html)\<close>

subsection \<open>String operations\<close>

definition strip :: "string \<Rightarrow> string" where
  \<comment> \<open>\<^verbatim>\<open>s.strip()\<close>\<close>
  "strip s = rev (dropWhile is_space (rev (dropWhile is_space s)))"

fun join :: "string \<Rightarrow> string list \<Rightarrow> string" where
  \<comment> \<open>\<^verbatim>\<open>sep.join(xs)\<close>\<close>
  "join sep [] = []"
| "join sep [x] = x"
| "join sep (x # y # r) = x @ sep @ join sep (y # r)"

fun split_nl :: "string \<Rightarrow> string list" where
  \<comment> \<open>\<^verbatim>\<open>s.split("\n")\<close>: never empty, the empty string gives one empty line\<close>
  "split_nl [] = [[]]"
| "split_nl (c # cs) =
     (if c = CHR 0x0A then [] # split_nl cs
      else (case split_nl cs of l # ls \<Rightarrow> (c # l) # ls | [] \<Rightarrow> [[c]]))"

function collapse_runs :: "(char \<Rightarrow> bool) \<Rightarrow> string \<Rightarrow> string" where
  \<comment> \<open>\<^verbatim>\<open>re.sub(r"C+", " ", s)\<close> for a character class \<open>C\<close>: every maximal run of the
      class becomes one space\<close>
  "collapse_runs P [] = []"
| "collapse_runs P (c # cs) =
     (if P c then CHR '' '' # collapse_runs P (dropWhile P cs) else c # collapse_runs P cs)"
  by pat_completeness auto
termination
  by (relation "measure (\<lambda>(P, s). length s)") (auto simp: le_imp_less_Suc length_dropWhile_le)

definition after_last_nl :: "string \<Rightarrow> string" where
  "after_last_nl run = rev (takeWhile (\<lambda>c. c \<noteq> CHR 0x0A) (rev run))"

function collapse_blank_lines :: "string \<Rightarrow> string" where
  \<comment> \<open>\<^verbatim>\<open>re.sub(r"\n\s*\n", "\n", s)\<close>: behind a newline the greedy \<^verbatim>\<open>\s*\<close> takes the whole
      run of whitespace and gives back as far as the last newline of the run; without a
      newline in the run there is no match at this place\<close>
  "collapse_blank_lines [] = []"
| "collapse_blank_lines (c # cs) =
     (if c = CHR 0x0A \<and> CHR 0x0A \<in> set (takeWhile is_space cs)
      then CHR 0x0A #
           collapse_blank_lines
             (drop (length (takeWhile is_space cs) - length (after_last_nl (takeWhile is_space cs))) cs)
      else c # collapse_blank_lines cs)"
  by pat_completeness auto
termination
  by (relation "measure length") (auto simp: le_imp_less_Suc)

subsection \<open>Steps 1 to 3: removing noise, decoding protected emails\<close>

fun is_comment :: "node \<Rightarrow> bool" where
  "is_comment (Comment s) = True"
| "is_comment _ = False"

fun prune :: "(node \<Rightarrow> bool) \<Rightarrow> node \<Rightarrow> node list" where
  \<comment> \<open>\<^verbatim>\<open>decompose()\<close> or \<^verbatim>\<open>extract()\<close> on every node found: the node goes with all below it\<close>
  "prune p (Element n a cs) =
     (if p (Element n a cs) then [] else [Element n a (concat (map (prune p) cs))])"
| "prune p (Text s) = (if p (Text s) then [] else [Text s])"
| "prune p (Comment s) = (if p (Comment s) then [] else [Comment s])"

definition prune_all :: "(node \<Rightarrow> bool) \<Rightarrow> node list \<Rightarrow> node list" where
  "prune_all p soup = concat (map (prune p) soup)"

fun decode_cfemail_tags :: "node \<Rightarrow> node" where
  \<comment> \<open>Every tag with a \<^verbatim>\<open>data-cfemail\<close> attribute, in document order: when the decoded
      text is not empty, \<^verbatim>\<open>tag.string = decoded\<close> replaces the children (tags found below
      it are detached, what the loop does to them later is not seen in the document).\<close>
  "decode_cfemail_tags (Element n a cs) =
     (case map_of a ''data-cfemail'' of
        Some v \<Rightarrow>
          (if decode_cloudflare_email v \<noteq> [] then Element n a [Text (decode_cloudflare_email v)]
           else Element n a (map decode_cfemail_tags cs))
      | None \<Rightarrow> Element n a (map decode_cfemail_tags cs))"
| "decode_cfemail_tags t = t"

definition after_last_hash :: "string \<Rightarrow> string" where
  \<comment> \<open>\<^verbatim>\<open>href.split("#")[-1]\<close>\<close>
  "after_last_hash s = rev (takeWhile (\<lambda>c. c \<noteq> CHR ''#'') (rev s))"

fun decode_protected_links :: "node \<Rightarrow> node" where
  \<comment> \<open>every \<^verbatim>\<open>a\<close> tag with an \<^verbatim>\<open>href\<close>, in document order\<close>
  "decode_protected_links (Element n a cs) =
     (case (if n = ''a'' then map_of a ''href'' else None) of
        Some href \<Rightarrow>
          (if contains href ''/cdn-cgi/l/email-protection#''
                \<and> decode_cloudflare_email (after_last_hash href) \<noteq> []
           then Element n
                  (map (\<lambda>(k, v). if k = ''href''
                                   then (k, ''mailto:'' @ decode_cloudflare_email (after_last_hash href))
                                   else (k, v)) a)
                  [Text (decode_cloudflare_email (after_last_hash href))]
           else Element n a (map decode_protected_links cs))
      | None \<Rightarrow> Element n a (map decode_protected_links cs))"
| "decode_protected_links t = t"

fun search_display_none :: "string \<Rightarrow> bool" where
  \<comment> \<open>\<^verbatim>\<open>re.compile(r"display:\s*none", re.I).search(s)\<close> finds a match\<close>
  "search_display_none [] = False"
| "search_display_none (c # cs) =
     ((startswith (lower (c # cs)) ''display:''
       \<and> startswith (dropWhile is_space (drop 8 (lower (c # cs)))) ''none'')
      \<or> search_display_none cs)"

definition is_hidden :: "node \<Rightarrow> bool" where
  "is_hidden e =
     (case map_of (tag_attrs e) ''style'' of Some v \<Rightarrow> search_display_none v | None \<Rightarrow> False)"

subsection \<open>Step 4: the lines of the content tags\<close>

fun strings :: "node \<Rightarrow> string list" where
  \<comment> \<open>the text strings of a node, in document order\<close>
  "strings (Text s) = [s]"
| "strings (Comment s) = []"
| "strings (Element n a cs) = concat (map strings cs)"

definition get_text :: "string \<Rightarrow> node \<Rightarrow> string" where
  \<comment> \<open>\<^verbatim>\<open>elem.get_text(sep, strip=True)\<close>\<close>
  "get_text sep elem =
     join sep (filter (\<lambda>s. s \<noteq> []) (map strip (concat (map strings (contents elem)))))"

definition line_of :: "node \<Rightarrow> string option" where
  \<comment> \<open>the body of the loop of step 4, \<open>None\<close> for \<^verbatim>\<open>continue\<close>\<close>
  "line_of elem =
     (let text = get_text '' '' elem
      in if text = [] then None
         else
           (let text = collapse_runs is_space text
            in if length text < 3 then None
               else
                 (case (if tag_name elem = ''a'' then map_of (tag_attrs elem) ''href'' else None) of
                    Some h \<Rightarrow>
                      (let href = strip h
                       in if \<not> contains text href then Some (text @ '': '' @ href)
                          else Some text)
                  | None \<Rightarrow> Some text)))"

definition extract_lines :: "node list \<Rightarrow> string list" where
  "extract_lines soup =
     List.map_filter line_of (find_all [''h1'', ''h2'', ''h3'', ''h4'', ''p'', ''li'', ''a''] soup)"

subsection \<open>Steps 5 and 6: whitespace and deduplication\<close>

definition normalize_whitespace :: "string \<Rightarrow> string" where
  "normalize_whitespace texto =
     collapse_runs (\<lambda>c. c = CHR '' '' \<or> c = CHR 0x09)
       (collapse_blank_lines (map (\<lambda>c. if c = CHR 0xA0 then CHR '' '' else c) texto))"

definition url_start :: "string \<Rightarrow> bool" where
  \<comment> \<open>\<^verbatim>\<open>(https?://|/)\<close> at the start of a text\<close>
  "url_start t = (startswith t ''http://'' \<or> startswith t ''https://'' \<or> startswith t ''/'')"

fun strip_link_suffix :: "string \<Rightarrow> string" where
  \<comment> \<open>\<^verbatim>\<open>re.sub(r":\s*(https?://|/).*?$", "", line)\<close> on a line without a newline: the match
      starts at the first colon that whitespace and then a link start follow, and runs to
      the end of the line\<close>
  "strip_link_suffix [] = []"
| "strip_link_suffix (c # cs) =
     (if c = CHR '':'' \<and> url_start (dropWhile is_space cs) then []
      else c # strip_link_suffix cs)"

definition normalized_key :: "string \<Rightarrow> string" where
  "normalized_key line = lower (strip (strip_link_suffix line))"

fun dedup_loop :: "string set \<Rightarrow> string list \<Rightarrow> string list" where
  \<comment> \<open>the loop of step 6 from a state \<open>seen\<close>: the lines it appends to \<^verbatim>\<open>dedup_lines\<close>\<close>
  "dedup_loop seen [] = []"
| "dedup_loop seen (raw # rest) =
     (let line = strip raw
      in if line = [] then dedup_loop seen rest
         else if normalized_key line \<notin> seen
              then line # dedup_loop (insert (normalized_key line) seen) rest
              else dedup_loop seen rest)"

definition smart_dedup :: "string \<Rightarrow> string list" where
  \<comment> \<open>\<^verbatim>\<open>dedup_lines\<close> at the end of step 6\<close>
  "smart_dedup texto = dedup_loop {} (split_nl texto)"

definition dedup_text :: "string \<Rightarrow> string" where
  \<comment> \<open>step 6 with the final \<^verbatim>\<open>"\n".join(dedup_lines)\<close>\<close>
  "dedup_text texto = join [CHR 0x0A] (smart_dedup texto)"

definition extract_text :: "node list \<Rightarrow> string" where
  \<comment> \<open>steps 1 to 5: \<^verbatim>\<open>texto\<close> as step 6 finds it\<close>
  "extract_text soup =
     (let soup1 = prune_all (\<lambda>e. is_tag e \<and> tag_name e \<in> set [''script'', ''style'', ''noscript'']) soup;
          soup2 = prune_all is_comment soup1;
          soup3 = map decode_cfemail_tags soup2;
          soup4 = map decode_protected_links soup3;
          soup5 = prune_all is_hidden soup4
      in normalize_whitespace (join [CHR 0x0A] (extract_lines soup5)))"

definition clean_html :: "node list \<Rightarrow> string" where
  \<comment> \<open>\<open>soup\<close> is the parse tree of the markup (decoded from UTF-8 first when given as bytes)\<close>
  "clean_html soup = dedup_text (extract_text soup)"

definition candidate_lines :: "string \<Rightarrow> string list" where
  \<comment> \<open>the lines step 6 looks at: the lines of the text, trimmed, the empty ones left out\<close>
  "candidate_lines texto = filter (\<lambda>l. l \<noteq> []) (map strip (split_nl texto))"

fun single_spaced :: "string \<Rightarrow> bool" where
  \<comment> \<open>no two spaces in a row\<close>
  "single_spaced (a # b # r) = (\<not> (a = CHR '' '' \<and> b = CHR '' '') \<and> single_spaced (b # r))"
| "single_spaced _ = True"

section \<open>Properties of the phone validity rule\<close>

lemma clean_number_idem: "clean_number (clean_number s) = clean_number s"
  by (simp add: clean_number_def)



text \<open>
  C10. The verdict of \<open>is_valid_phone\<close> depends on the digits of the candidate only: a
  candidate and its digit-only form get the same verdict, and so do any two candidates
  with the same digit-only form, whatever separators they are written with.
\<close>

theorem is_valid_phone_clean_number:
  "is_valid_phone s = is_valid_phone (clean_number s)
   \<and> (\<forall>t. clean_number t = clean_number s \<longrightarrow> is_valid_phone t = is_valid_phone s)"
  by (simp add: is_valid_phone_def clean_number_idem)

theorem is_valid_phone_clean_number_witness:
  "clean_number ''(555) 123-4567'' = clean_number ''555 123 4567''
   \<and> is_valid_phone ''(555) 123-4567'' = is_valid_phone ''555 123 4567''
   \<and> is_valid_phone ''(555) 123-4567''"
proof -
  have same: "clean_number ''(555) 123-4567'' = clean_number ''555 123 4567''"
    by (simp add: clean_number_def is_digit_def)
  have valid: "is_valid_phone ''(555) 123-4567''"
    by code_simp
  from is_valid_phone_clean_number [of "''555 123 4567''"] same
  have "is_valid_phone ''(555) 123-4567'' = is_valid_phone ''555 123 4567''"
    by blast
  with same valid show ?thesis by blast
qed

section \<open>Properties of the Cloudflare decoder\<close>

lemma lt16: "(d::nat) < 16 \<longleftrightarrow> d \<in> {0,1,2,3,4,5,6,7,8,9,10,11,12,13,14,15}"
  by (simp only: insert_iff empty_iff) presburger

lemma hex_digit_val: "d < 16 \<Longrightarrow> hex_val (hex_digit up d) = Some d"
  unfolding lt16 by (cases up) (auto simp: hex_digit_def hex_val_def)

lemma hex_digit_props:
  "d < 16 \<Longrightarrow> \<not> is_int_space (hex_digit up d) \<and> hex_digit up d \<noteq> CHR ''_''
     \<and> hex_digit up d \<noteq> CHR ''-'' \<and> hex_digit up d \<noteq> CHR ''+''
     \<and> hex_digit up d \<noteq> CHR ''x'' \<and> hex_digit up d \<noteq> CHR ''X''"
  unfolding lt16 by (cases up) (auto simp: hex_digit_def is_int_space_def)

lemma py_int16_two_hex:
  assumes "hex_val a = Some x" "hex_val b = Some y"
    "\<not> is_int_space a" "a \<noteq> CHR ''-''" "a \<noteq> CHR ''+''" "a \<noteq> CHR ''_''" "b \<noteq> CHR ''_''"
    "b \<noteq> CHR ''x''" "b \<noteq> CHR ''X''"
  shows "py_int16 [a, b] = Some (int (16 * x + y))"
  using assms by (simp add: py_int16_def is_hex_def Let_def)

lemma py_int16_hex_pair: "b < 256 \<Longrightarrow> py_int16 (hex_pair up b) = Some (int b)"
proof -
  assume b: "b < 256"
  then have d: "b div 16 < 16" "b mod 16 < 16" by auto
  have "py_int16 (hex_pair up b) = Some (int (16 * (b div 16) + b mod 16))"
    unfolding hex_pair_def
    using hex_digit_val [OF d(1), of up] hex_digit_val [OF d(2), of up]
      hex_digit_props [OF d(1), of up] hex_digit_props [OF d(2), of up]
    by (intro py_int16_two_hex) auto
  then show ?thesis by simp
qed











lemma hex_val_bound: "hex_val c = Some v \<Longrightarrow> v < 16"
  by (auto simp: hex_val_def Let_def split: if_splits)









lemma chunks2_pairs: "chunks2 (concat (map (\<lambda>x. [f x, g x]) xs)) = map (\<lambda>x. [f x, g x]) xs"
  by (induction xs) auto

lemma xor_key_small: "key < 256 \<Longrightarrow> (of_char c :: nat) XOR key < 256"
proof -
  assume k: "key < 256"
  have "int (of_char c) < 256" by simp
  have "int (of_char c) XOR int key < 2 ^ 8"
    using k by (intro XOR_upper) auto
  then have "int (of_char c XOR key) < 256" by (simp add: of_nat_xor_eq)
  then show ?thesis by linarith
qed

lemma decode_chunks_encode:
  assumes "key < 256"
  shows "decode_chunks (int key) (map (\<lambda>c. hex_pair up (of_char c XOR key)) email) = Inr email"
proof (induction email)
  case Nil
  then show ?case by simp
next
  case (Cons c cs)
  have "py_int16 (hex_pair up (of_char c XOR key)) = Some (int (of_char c XOR key))"
    by (rule py_int16_hex_pair [OF xor_key_small [OF assms]])
  moreover have "int (of_char c XOR key) XOR int key = int (of_char c)"
    by (simp add: of_nat_xor_eq xor.assoc)
  moreover have "py_chr (int (of_char c)) = Some c"
  proof -
    have "int (of_char c) < 256" by simp
    then have "int (of_char c) < 1114112" by linarith
    then show ?thesis by (simp add: py_chr_def)
  qed
  ultimately show ?case using Cons by simp
qed

lemma foldl_hex_bound:
  "list_all is_hex ds \<Longrightarrow> acc < 16 ^ k
     \<Longrightarrow> foldl (\<lambda>acc c. 16 * acc + the (hex_val c)) acc ds < 16 ^ (k + length ds)"
proof (induction ds arbitrary: acc k)
  case Nil
  then show ?case by simp
next
  case (Cons d ds)
  from Cons.prems obtain x where x: "hex_val d = Some x" by (auto simp: is_hex_def)
  from hex_val_bound [OF x] have "x < 16" .
  with Cons.prems(2) have "16 * acc + x < 16 ^ (Suc k)" by simp
  from Cons.IH [OF _ this] Cons.prems(1) x show ?case by simp
qed

lemma py_int16_magnitude:
  assumes "py_int16 s = Some v"
  shows "\<exists>ds. list_all is_hex ds \<and> length ds \<le> length s
           \<and> \<bar>v\<bar> = int (foldl (\<lambda>acc c. 16 * acc + the (hex_val c)) 0 ds)"
proof -
  define s1 where "s1 = dropWhile is_int_space s"
  define s2 where "s2 = (if s1 \<noteq> [] \<and> (hd s1 = CHR ''-'' \<or> hd s1 = CHR ''+'') then tl s1 else s1)"
  define s3 where "s3 = (if length s2 \<ge> 2 \<and> s2 ! 0 = CHR ''0'' \<and> (s2 ! 1 = CHR ''x'' \<or> s2 ! 1 = CHR ''X'')
                then (if length s2 \<ge> 3 \<and> s2 ! 2 = CHR ''_'' then drop 3 s2 else drop 2 s2)
                else s2)"
  define body where "body = takeWhile (\<lambda>c. is_hex c \<or> c = CHR ''_'') s3"
  define ds where "ds = filter is_hex body"
  have l1: "length s1 \<le> length s" unfolding s1_def by (rule length_dropWhile_le)
  have l2: "length s2 \<le> length s1" unfolding s2_def by simp
  have l3: "length s3 \<le> length s2" unfolding s3_def by simp
  have l4: "length body \<le> length s3" unfolding body_def by (rule length_takeWhile_le)
  have l5: "length ds \<le> length body" unfolding ds_def by simp
  have h: "list_all is_hex ds" unfolding ds_def by (simp add: list_all_iff)
  from assms have "\<bar>v\<bar> = int (foldl (\<lambda>acc c. 16 * acc + the (hex_val c)) 0 ds)"
    unfolding py_int16_def Let_def s1_def [symmetric] s2_def [symmetric] s3_def [symmetric]
      body_def [symmetric] ds_def [symmetric]
    by (auto split: if_splits)
  with h l1 l2 l3 l4 l5 show ?thesis by (intro exI [of _ ds]) simp
qed

lemma py_int16_range: "length s \<le> 2 \<Longrightarrow> py_int16 s = Some v \<Longrightarrow> - 256 < v \<and> v < 256"
proof -
  assume l: "length s \<le> 2" and p: "py_int16 s = Some v"
  from py_int16_magnitude [OF p] obtain ds where ds: "list_all is_hex ds" "length ds \<le> length s"
    "\<bar>v\<bar> = int (foldl (\<lambda>acc c. 16 * acc + the (hex_val c)) 0 ds)" by blast
  have "foldl (\<lambda>acc c. 16 * acc + the (hex_val c)) 0 ds < 16 ^ (0 + length ds)"
    by (rule foldl_hex_bound [OF ds(1)]) simp
  also have "\<dots> \<le> 16 ^ 2" using ds(2) l by (intro power_increasing) auto
  finally have "\<bar>v\<bar> < 256" using ds(3) by simp
  then show ?thesis by auto
qed

lemma xor_small:
  assumes "- 256 < (v::int)" "v < 256" "- 256 < n" "n < 256" "0 \<le> v XOR n"
  shows "v XOR n < 256"
proof (cases "0 \<le> v")
  case True
  with assms(5) have "0 \<le> n" by simp
  have "v XOR n < 2 ^ 8" using True assms \<open>0 \<le> n\<close> by (intro XOR_upper) auto
  then show ?thesis by simp
next
  case False
  with assms(5) have n: "n < 0" by simp
  have eq: "v XOR n = NOT v XOR NOT n" by simp
  have "NOT v XOR NOT n < 2 ^ 8"
    using False n assms by (intro XOR_upper) (auto simp: not_int_def)
  with eq show ?thesis by simp
qed


lemma decode_chunks_code_point:
  assumes "length c \<le> 2" "length k \<le> 2" "py_int16 c = Some v" "py_int16 k = Some n"
    "0 \<le> v XOR n"
  shows "v XOR n < 256"
  using py_int16_range [OF assms(1) assms(3)] py_int16_range [OF assms(2) assms(4)] assms(5)
  by (intro xor_small) auto




text \<open>
  C5. For every key byte and every email, hence every ASCII one, decoding the payload that
  holds the key byte and then each plaintext byte XOR'd with the key, all as pairs of
  hexadecimal digits, gives back the email exactly.
\<close>

theorem decode_encode_roundtrip:
  assumes "key < 256"
  shows "decode_cloudflare_email (encode_cloudflare_email up key email) = email"
proof -
  have "take 2 (encode_cloudflare_email up key email) = hex_pair up key"
    by (simp add: encode_cloudflare_email_def hex_pair_def)
  moreover have "chunks2 (drop 2 (encode_cloudflare_email up key email))
      = map (\<lambda>c. hex_pair up (of_char c XOR key)) email"
    by (simp add: encode_cloudflare_email_def hex_pair_def chunks2_pairs)
  ultimately show ?thesis
    using py_int16_hex_pair [OF assms, of up] decode_chunks_encode [OF assms, of up email]
    by (simp add: decode_cloudflare_email_def decode_cloudflare_email_try_def)
qed


theorem decode_encode_roundtrip_witness:
  "(90::nat) < 256 \<and> encode_cloudflare_email False 90 ''a@b.co'' = ''5a3b1a38743935''
   \<and> decode_cloudflare_email ''5a3b1a38743935'' = ''a@b.co''"
proof -
  have k: "(90::nat) < 256" by simp
  have e: "encode_cloudflare_email False 90 ''a@b.co'' = ''5a3b1a38743935''"
    by code_simp
  from decode_encode_roundtrip [OF k, of False "''a@b.co''"] e k show ?thesis by simp
qed

section \<open>Properties of the framework detection\<close>

lemma id_root_here_intro:
  "is_quote q1 \<Longrightarrow> is_quote q2 \<Longrightarrow> id_root_here (''id='' @ [q1] @ ''root'' @ [q2] @ post)"
  by (simp add: id_root_here_def)

lemma attrs_then_id_root_intro:
  "attrs \<noteq> [] \<Longrightarrow> CHR ''>'' \<notin> set attrs \<Longrightarrow> id_root_here t \<Longrightarrow> attrs_then_id_root (attrs @ t)"
proof (induction attrs)
  case Nil
  then show ?case by simp
next
  case (Cons a attrs)
  then show ?case by (cases "attrs = []") auto
qed

lemma search_div_root_intro:
  "attrs_then_id_root u \<Longrightarrow> search_div_root (pre @ ''<div'' @ u)"
  by (induction pre) (simp_all add: startswith_def)

lemma frameworks_detected_empty_iff:
  "frameworks_detected (detect_framework html soup) = [] \<longleftrightarrow> \<not> is_spa_like (detect_framework html soup)"
  by (simp add: detect_framework_def Let_def)

text \<open>
  C7 (as amended). \<open>is_html_traditional\<close> is true exactly when no framework is detected and
  the first \<^verbatim>\<open>body\<close> tag of the document has more than 5 tags from h1, h2, h3, p, li
  below it. A document without a \<^verbatim>\<open>body\<close> tag is never traditional, whatever it holds.
\<close>

theorem is_html_traditional_iff:
  "is_html_traditional (detect_framework html soup) \<longleftrightarrow>
     (frameworks_detected (detect_framework html soup) = []
      \<and> (\<exists>b. soup_body soup = Some b
              \<and> 5 < length (find_all [''p'', ''h1'', ''h2'', ''h3'', ''li''] (contents b))))"
proof -
  have "is_html_traditional (detect_framework html soup) \<longleftrightarrow>
     (\<not> is_spa_like (detect_framework html soup)
      \<and> (\<exists>b. soup_body soup = Some b
              \<and> 5 < length (find_all [''p'', ''h1'', ''h2'', ''h3'', ''li''] (contents b))))"
    by (cases "soup_body soup") (simp_all add: detect_framework_def Let_def)
  then show ?thesis by (simp only: frameworks_detected_empty_iff)
qed

text \<open>
  The claim as the specification words it counts the tags of the document. Six paragraphs
  without a \<^verbatim>\<open>body\<close> tag around them (the parser adds none) show the difference: no
  framework is detected, the document has six tags of the list, and the verdict is false.
\<close>

theorem is_html_traditional_no_body_counterexample:
  "frameworks_detected (detect_framework (concat (replicate 6 ''<p>a</p>''))
       (replicate 6 (Element ''p'' [] [Text ''a'']))) = []
   \<and> length (find_all [''p'', ''h1'', ''h2'', ''h3'', ''li'']
       (replicate 6 (Element ''p'' [] [Text ''a'']))) = 6
   \<and> \<not> is_html_traditional (detect_framework (concat (replicate 6 ''<p>a</p>''))
       (replicate 6 (Element ''p'' [] [Text ''a''])))"
  by code_simp

text \<open>
  C9 (as amended). For every markup string whose lower-case form holds \<^verbatim>\<open><div\<close>, then one
  or more characters other than \<^verbatim>\<open>>\<close>, then \<^verbatim>\<open>id=\<close> and \<^verbatim>\<open>root\<close> between two quote
  characters, \<open>detect_framework\<close> lists react among the detected frameworks, reports
  \<open>is_spa_like\<close> and denies \<open>is_html_traditional\<close>, with or without react-dom markers.
\<close>

theorem detect_framework_div_root:
  assumes "lower html = pre @ ''<div'' @ attrs @ ''id='' @ [q1] @ ''root'' @ [q2] @ post"
    and "attrs \<noteq> []" and "CHR ''>'' \<notin> set attrs" and "is_quote q1" and "is_quote q2"
  shows "''react'' \<in> set (frameworks_detected (detect_framework html soup))
         \<and> is_spa_like (detect_framework html soup)
         \<and> \<not> is_html_traditional (detect_framework html soup)"
proof -
  have "search_div_root (lower html)"
    unfolding assms(1)
    by (intro search_div_root_intro attrs_then_id_root_intro id_root_here_intro assms)
  then show ?thesis by (simp add: detect_framework_def Let_def)
qed

theorem detect_framework_div_root_witness:
  "lower ''<DIV id=\"root\"></DIV>'' = [] @ ''<div'' @ '' '' @ ''id='' @ [CHR 0x22] @ ''root'' @ [CHR 0x22] @ ''></div>''
   \<and> is_quote (CHR 0x22)
   \<and> frameworks_detected (detect_framework ''<DIV id=\"root\"></DIV>'' [Element ''div'' [(''id'', ''root'')] []]) = [''react'']
   \<and> is_spa_like (detect_framework ''<DIV id=\"root\"></DIV>'' [Element ''div'' [(''id'', ''root'')] []])
   \<and> \<not> is_html_traditional (detect_framework ''<DIV id=\"root\"></DIV>'' [Element ''div'' [(''id'', ''root'')] []])"
proof -
  have l: "lower ''<DIV id=\"root\"></DIV>'' = [] @ ''<div'' @ '' '' @ ''id='' @ [CHR 0x22] @ ''root'' @ [CHR 0x22] @ ''></div>''"
    by code_simp
  have q: "is_quote (CHR 0x22)" by (simp add: is_quote_def)
  have a: "'' '' \<noteq> []" "CHR ''>'' \<notin> set '' ''" by simp_all
  have f: "frameworks_detected (detect_framework ''<DIV id=\"root\"></DIV>'' [Element ''div'' [(''id'', ''root'')] []]) = [''react'']"
    by code_simp
  from detect_framework_div_root [OF l a q q, of "[Element ''div'' [(''id'', ''root'')] []]"] l q f
  show ?thesis by blast
qed

text \<open>
  The claim as the specification words it fails on markup that carries \<^verbatim>\<open>id="root"\<close> on
  another tag than \<^verbatim>\<open>div\<close>: nothing is detected.
\<close>

theorem detect_framework_span_root_counterexample:
  "contains ''<span id=\"root\"></span>'' ''id=\"root\"''
   \<and> \<not> contains (lower ''<span id=\"root\"></span>'') ''react-dom''
   \<and> frameworks_detected (detect_framework ''<span id=\"root\"></span>''
         [Element ''span'' [(''id'', ''root'')] []]) = []
   \<and> \<not> is_spa_like (detect_framework ''<span id=\"root\"></span>''
         [Element ''span'' [(''id'', ''root'')] []])"
  by code_simp

section \<open>Properties of the locator\<close>

lemma match_digits_maximal:
  "ds \<noteq> [] \<Longrightarrow> match_digits ds s = Some n \<Longrightarrow> n = length s \<or> is_digit (s ! n)"
proof (induction ds s arbitrary: n rule: match_digits.induct)
  case (1 t)
  then show ?case by simp
next
  case (2 d ds)
  then show ?case by simp
next
  case (3 d ds c cs)
  define k where "k = length (takeWhile (\<lambda>x. \<not> is_digit x) cs)"
  from "3.prems"(2) obtain m where m: "c = d" "match_digits ds (drop k cs) = Some m" "n = 1 + k + m"
    by (auto simp: k_def Let_def split: if_splits option.splits)
  have stop: "k = length cs \<or> is_digit (cs ! k)"
    unfolding k_def
    by (metis (mono_tags, lifting) le_neq_implies_less length_takeWhile_le nth_length_takeWhile)
  show ?case
  proof (cases "ds = []")
    case True
    with m have "n = 1 + k" by simp
    with stop show ?thesis by auto
  next
    case False
    from "3.IH" [OF m(1) k_def False m(2)]
    have "m = length (drop k cs) \<or> is_digit (drop k cs ! m)" .
    moreover have "k \<le> length cs" unfolding k_def by (rule length_takeWhile_le)
    moreover have "k + m \<le> length cs \<Longrightarrow> m < length (drop k cs) \<Longrightarrow> drop k cs ! m = cs ! (k + m)"
      by simp
    ultimately show ?thesis using m(3)
      by (cases "m = length (drop k cs)") (auto simp: nth_Cons')
  qed
qed

text \<open>
  C8. On the target \<^verbatim>\<open>"449 805 5337"\<close> and the document
  \<^verbatim>\<open><p>call 449-805-5337 now</p>\<close> the locator returns exactly one hit and its snippet
  contains \<^verbatim>\<open>call\<close>, but the match text is \<^verbatim>\<open>449-805-5337 now</p>\<close>, from offset 8 to
  offset 28, the end of the document: the pattern puts \<^verbatim>\<open>\D*\<close> after every digit, the
  last one too, so a match also takes the run of non-digits that follows the number.
\<close>

theorem find_string_in_html_trailing_run:
  "find_string_in_html ''449 805 5337'' ''<p>call 449-805-5337 now</p>'' 50
     = [\<lparr>hit_source = ''raw'', hit_match = ''449-805-5337 now</p>'', hit_start = 8,
         hit_end = 28, hit_snippet = ''<p>call 449-805-5337 now</p>''\<rparr>]
   \<and> contains ''<p>call 449-805-5337 now</p>'' ''call''
   \<and> ''449-805-5337 now</p>'' \<noteq> ''449-805-5337''"
  by code_simp

section \<open>Properties of the batch fetch\<close>

lemma fetch_html_Some_iff:
  "fetch_html analyse outcome u = Some r \<longleftrightarrow>
     (\<exists>h. outcome = Page h \<and> r = \<lparr>result_url = u, result_size = length h,
                                    result_analysis = analyse h, result_html = h\<rparr>)"
  by (cases outcome) (auto simp: fetch_html_def)

lemma fetch_html_None_iff: "fetch_html analyse outcome u = None \<longleftrightarrow> outcome = Raises"
  by (cases outcome) (auto simp: fetch_html_def)

lemma fetch_html_url: "fetch_html analyse outcome u = Some r \<Longrightarrow> result_url r = u"
  by (auto simp: fetch_html_Some_iff)

lemma map_filter_as_map:
  "List.map_filter f xs = map (\<lambda>x. the (f x)) (filter (\<lambda>x. f x \<noteq> None) xs)"
  by (induction xs) (auto simp: List.map_filter_def)

lemma length_filter_distinct:
  "distinct xs \<Longrightarrow> length (filter P xs) = card {x \<in> set xs. P x}"
  by (metis distinct_card distinct_filter set_filter)

lemma collected_count:
  assumes "completion_order order n"
  shows "length (filter (\<lambda>i. net i \<noteq> Raises) order) = n - card {i. i < n \<and> net i = Raises}"
proof -
  from assms have d: "distinct order" and s: "set order = {0..<n}"
    by (simp_all add: completion_order_def)
  have split: "{0..<n} = {i. i < n \<and> net i \<noteq> Raises} \<union> {i. i < n \<and> net i = Raises}"
    by auto
  have "card {0..<n} = card {i. i < n \<and> net i \<noteq> Raises} + card {i. i < n \<and> net i = Raises}"
    by (subst split, rule card_Un_disjoint) auto
  then have "card {i. i < n \<and> net i \<noteq> Raises} = n - card {i. i < n \<and> net i = Raises}"
    by simp
  moreover have "length (filter (\<lambda>i. net i \<noteq> Raises) order) = card {i \<in> set order. net i \<noteq> Raises}"
    by (rule length_filter_distinct [OF d])
  moreover have "{i \<in> set order. net i \<noteq> Raises} = {i. i < n \<and> net i \<noteq> Raises}"
    using s by auto
  ultimately show ?thesis by simp
qed

text \<open>
  C6 (as amended). For every list of N URLs, every outcome of the N fetches and every
  order in which the futures complete, with the default worker bound or a positive one:
  the batch fetch returns without raising; it returns exactly N - K records, K being the
  number of fetches that raised; the url of every record is one of the input URLs; the
  records are exactly those of the successful fetches, whatever the completion order; and
  the URLs of the records are pairwise distinct when the input URLs are.
\<close>

theorem fetch_multiple_partial_success:
  assumes "completion_order order (length urls)"
    and "max_workers = None \<or> (\<exists>m. max_workers = Some m \<and> 0 < m)"
  shows "\<exists>rs. fetch_multiple analyse net order urls max_workers = Inr rs
           \<and> length rs = length urls - card {i. i < length urls \<and> net i = Raises}
           \<and> set (map result_url rs) \<subseteq> set urls
           \<and> set rs = {r. \<exists>i < length urls. fetch_html analyse (net i) (urls ! i) = Some r}
           \<and> (distinct urls \<longrightarrow> distinct (map result_url rs))"
proof (cases "urls = []")
  case True
  then show ?thesis by (simp add: fetch_multiple_def)
next
  case False
  define f where "f = (\<lambda>i. fetch_html analyse (net i) (urls ! i))"
  define ok where "ok = filter (\<lambda>i. net i \<noteq> Raises) order"
  define rs where "rs = List.map_filter f order"
  from assms(1) have d: "distinct order" and s: "set order = {0..<length urls}"
    by (simp_all add: completion_order_def)
  have fnone: "\<And>i. (f i \<noteq> None) = (net i \<noteq> Raises)"
    by (simp add: f_def fetch_html_None_iff)
  have "filter (\<lambda>i. f i \<noteq> None) order = ok"
    unfolding ok_def by (rule filter_cong) (simp_all only: fnone)
  then have rs_map: "rs = map (\<lambda>i. the (f i)) ok"
    unfolding rs_def map_filter_as_map by (rule arg_cong)
  have ok_lt: "\<And>i. i \<in> set ok \<Longrightarrow> i < length urls" using s by (simp add: ok_def)
  have url_of: "\<And>i. i \<in> set ok \<Longrightarrow> result_url (the (f i)) = urls ! i"
  proof -
    fix i assume "i \<in> set ok"
    then have "net i \<noteq> Raises" by (simp add: ok_def)
    then obtain r where "f i = Some r" using fnone [of i] by auto
    then show "result_url (the (f i)) = urls ! i"
      by (auto simp: f_def dest: fetch_html_url)
  qed
  have urls_map: "map result_url rs = map (\<lambda>i. urls ! i) ok"
    by (simp add: rs_map url_of)
  from False have "1 \<le> int (length urls)" by (cases urls) simp_all
  then have "\<not> min 10 (int (length urls)) \<le> 0" unfolding min_def by auto
  then have workers: "\<not> (case max_workers of None \<Rightarrow> min 10 (int (length urls)) | Some m \<Rightarrow> m) \<le> 0"
    using assms(2) by (cases max_workers) (simp_all del: min_less_iff_conj min.bounded_iff)
  have res: "fetch_multiple analyse net order urls max_workers = Inr rs"
    using False workers by (simp add: fetch_multiple_def Let_def rs_def f_def)
  have len: "length rs = length urls - card {i. i < length urls \<and> net i = Raises}"
    using collected_count [OF assms(1), of net] by (simp add: rs_map ok_def)
  have mem: "set (map result_url rs) \<subseteq> set urls"
    using ok_lt by (auto simp: urls_map)
  have set_rs: "set rs = {r. \<exists>i < length urls. fetch_html analyse (net i) (urls ! i) = Some r}"
  proof (intro set_eqI iffI)
    fix r assume "r \<in> set rs"
    then obtain i where i: "i \<in> set ok" "r = the (f i)" by (auto simp: rs_map)
    then have "net i \<noteq> Raises" by (simp add: ok_def)
    then obtain r' where r': "f i = Some r'" using fnone [of i] by auto
    from i(1) have "i < length urls" by (rule ok_lt)
    moreover from i(2) r' have "fetch_html analyse (net i) (urls ! i) = Some r"
      by (simp add: f_def)
    ultimately show "r \<in> {r. \<exists>i < length urls. fetch_html analyse (net i) (urls ! i) = Some r}"
      by blast
  next
    fix r assume "r \<in> {r. \<exists>i < length urls. fetch_html analyse (net i) (urls ! i) = Some r}"
    then obtain i where i: "i < length urls" "f i = Some r" by (auto simp: f_def)
    then have "net i \<noteq> Raises" using fnone [of i] by auto
    with i(1) s have "i \<in> set ok" by (simp add: ok_def)
    moreover from i(2) have "r = the (f i)" by simp
    ultimately show "r \<in> set rs" unfolding rs_map by (simp only: set_map image_eqI)
  qed
  have dist: "distinct urls \<longrightarrow> distinct (map result_url rs)"
  proof
    assume du: "distinct urls"
    have "distinct ok" using d by (simp add: ok_def)
    moreover have "inj_on (\<lambda>i. urls ! i) (set ok)"
    proof (rule inj_onI)
      fix x y assume "x \<in> set ok" "y \<in> set ok" "urls ! x = urls ! y"
      with du ok_lt [of x] ok_lt [of y] show "x = y"
        by (simp add: nth_eq_iff_index_eq)
    qed
    ultimately show "distinct (map result_url rs)"
      by (simp add: urls_map distinct_map)
  qed
  show ?thesis
    by (intro exI [of _ rs] conjI) (fact res len mem set_rs dist)+
qed


theorem fetch_multiple_partial_success_witness:
  "completion_order [2, 0, 1] 3
   \<and> (\<exists>rs. fetch_multiple length (\<lambda>i. if i = 1 then Raises else Page ''<p>hi</p>'') [2, 0, 1]
               [''http://a.mx'', ''http://b.mx'', ''http://c.mx''] None = Inr rs
            \<and> length rs = 2 \<and> distinct (map result_url rs)
            \<and> set (map result_url rs) \<subseteq> {''http://a.mx'', ''http://b.mx'', ''http://c.mx''})"
proof -
  define urls where "urls = [''http://a.mx'', ''http://b.mx'', ''http://c.mx'']"
  define net where "net = (\<lambda>i::nat. if i = 1 then Raises else Page ''<p>hi</p>'')"
  have n: "length urls = 3" by (simp add: urls_def)
  have c: "completion_order [2, 0, 1] (length urls)"
    unfolding n completion_order_def by auto
  have w: "(None :: int option) = None \<or> (\<exists>m. (None :: int option) = Some m \<and> 0 < m)" by simp
  have k: "{i. i < (3::nat) \<and> net i = Raises} = {1}"
    unfolding net_def by auto
  have d: "distinct urls" by (simp add: urls_def)
  from fetch_multiple_partial_success [OF c w, of length net]
  obtain rs where rs: "fetch_multiple length net [2, 0, 1] urls None = Inr rs"
    "length rs = length urls - card {i. i < length urls \<and> net i = Raises}"
    "set (map result_url rs) \<subseteq> set urls"
    "distinct urls \<longrightarrow> distinct (map result_url rs)" by blast
  from rs(2) have "length rs = 2" unfolding n k by simp
  moreover from rs(4) d have "distinct (map result_url rs)" by simp
  moreover from rs(3) have "set (map result_url rs) \<subseteq> {''http://a.mx'', ''http://b.mx'', ''http://c.mx''}"
    by (simp add: urls_def)
  moreover from c have "completion_order [2, 0, 1] 3" by (simp only: n)
  ultimately show ?thesis using rs(1) unfolding urls_def net_def by blast
qed

text \<open>
  The claim as the specification words it fails on a list that names a URL twice: both
  futures succeed, and the batch returns two records with the same url.
\<close>

theorem fetch_multiple_duplicate_counterexample:
  "fetch_multiple length (\<lambda>i. Page ''<p>hi</p>'') [0, 1] [''http://a.mx'', ''http://a.mx''] None
     = Inr [\<lparr>result_url = ''http://a.mx'', result_size = 9, result_analysis = 9,
              result_html = ''<p>hi</p>''\<rparr>,
            \<lparr>result_url = ''http://a.mx'', result_size = 9, result_analysis = 9,
              result_html = ''<p>hi</p>''\<rparr>]
   \<and> completion_order [0, 1] 2
   \<and> \<not> distinct [''http://a.mx'', ''http://a.mx'']"
proof -
  have "completion_order [0, 1] 2"
    unfolding completion_order_def by auto
  then show ?thesis
    by (simp add: fetch_multiple_def fetch_html_def List.map_filter_def)
qed

section \<open>Properties of the deduplication\<close>

lemma rstrip_Cons: "\<not> P a \<Longrightarrow> rev (dropWhile P (rev (a # t))) = a # rev (dropWhile P (rev t))"
  by (simp add: dropWhile_append3)

lemma strip_cases:
  "strip s = (case dropWhile is_space s of [] \<Rightarrow> [] | a # t \<Rightarrow> a # rev (dropWhile is_space (rev t)))"
proof (cases "dropWhile is_space s")
  case Nil
  show ?thesis unfolding strip_def Nil by simp
next
  case (Cons a t)
  then have "\<not> is_space a" by (metis hd_dropWhile list.sel(1) list.distinct(1))
  with Cons show ?thesis by (simp add: strip_def rstrip_Cons del: rev.simps)
qed

lemma strip_idem: "strip (strip s) = strip s"
proof (cases "dropWhile is_space s")
  case Nil
  have e: "strip s = []" unfolding strip_def Nil by simp
  have "strip [] = []" by (simp add: strip_def)
  with e show ?thesis by simp
next
  case (Cons a t)
  then have a: "\<not> is_space a" by (metis hd_dropWhile list.sel(1) list.distinct(1))
  define u where "u = rev (dropWhile is_space (rev t))"
  have s: "strip s = a # u" using Cons by (simp add: strip_cases u_def)
  have "rev (dropWhile is_space (rev u)) = u" by (simp add: u_def)
  with a have "strip (a # u) = a # u"
    by (simp add: strip_def rstrip_Cons del: rev.simps)
  with s show ?thesis by simp
qed

lemma set_strip: "set (strip s) \<subseteq> set s"
proof
  fix x assume "x \<in> set (strip s)"
  then have "x \<in> set (dropWhile is_space (rev (dropWhile is_space s)))" by (simp add: strip_def)
  then have "x \<in> set (rev (dropWhile is_space s))" by (rule set_dropWhileD)
  then have "x \<in> set (dropWhile is_space s)" by simp
  then show "x \<in> set s" by (rule set_dropWhileD)
qed

lemma split_nl_not_Nil: "split_nl s \<noteq> []"
  by (induction s) (auto split: list.splits)

lemma split_nl_no_nl: "l \<in> set (split_nl s) \<Longrightarrow> CHR 0x0A \<notin> set l"
proof (induction s arbitrary: l)
  case Nil
  then show ?case by simp
next
  case (Cons c cs)
  show ?case
  proof (cases "c = CHR 0x0A")
    case True
    with Cons show ?thesis by auto
  next
    case False
    obtain h r where hr: "split_nl cs = h # r" using split_nl_not_Nil [of cs] by (cases "split_nl cs") auto
    with False Cons.prems have "l = c # h \<or> l \<in> set r" by simp
    then show ?thesis
    proof
      assume "l = c # h"
      moreover have "CHR 0x0A \<notin> set h" using Cons.IH [of h] hr by simp
      ultimately show ?thesis using False by simp
    next
      assume "l \<in> set r"
      then show ?thesis using Cons.IH [of l] hr by simp
    qed
  qed
qed

lemma split_nl_line: "CHR 0x0A \<notin> set l \<Longrightarrow> split_nl l = [l]"
  by (induction l) auto

lemma split_nl_append_nl:
  "CHR 0x0A \<notin> set l \<Longrightarrow> split_nl (l @ CHR 0x0A # s) = l # split_nl s"
  by (induction l) auto

lemma split_nl_join:
  "ls \<noteq> [] \<Longrightarrow> (\<And>l. l \<in> set ls \<Longrightarrow> CHR 0x0A \<notin> set l) \<Longrightarrow> split_nl (join [CHR 0x0A] ls) = ls"
proof (induction "[CHR 0x0A]" ls rule: join.induct)
  case 1
  then show ?case by simp
next
  case (2 x)
  then show ?case by (simp add: split_nl_line)
next
  case (3 x y r)
  then show ?case by (simp add: split_nl_append_nl)
qed

lemma dedup_loop_keys:
  "set (map normalized_key (dedup_loop seen ls)) \<inter> seen = {}
   \<and> distinct (map normalized_key (dedup_loop seen ls))"
proof (induction ls arbitrary: seen)
  case Nil
  then show ?case by simp
next
  case (Cons raw rest)
  from Cons [of seen] Cons [of "insert (normalized_key (strip raw)) seen"]
  show ?case by (auto simp: Let_def)
qed

lemma dedup_loop_subseq:
  "subseq (dedup_loop seen ls) (filter (\<lambda>l. l \<noteq> []) (map strip ls))"
  by (induction ls arbitrary: seen) (auto simp: Let_def)



lemma dedup_loop_no_duplicates:
  "distinct (map normalized_key (filter (\<lambda>l. l \<noteq> []) (map strip ls)))
   \<Longrightarrow> set (map normalized_key (filter (\<lambda>l. l \<noteq> []) (map strip ls))) \<inter> seen = {}
   \<Longrightarrow> dedup_loop seen ls = filter (\<lambda>l. l \<noteq> []) (map strip ls)"
proof (induction ls arbitrary: seen)
  case Nil
  then show ?case by simp
next
  case (Cons raw rest)
  show ?case
  proof (cases "strip raw = []")
    case True
    with Cons show ?thesis by simp
  next
    case False
    with Cons.prems have d: "distinct (map normalized_key (filter (\<lambda>l. l \<noteq> []) (map strip rest)))"
      and n: "normalized_key (strip raw) \<notin> seen"
      and i: "set (map normalized_key (filter (\<lambda>l. l \<noteq> []) (map strip rest)))
                \<inter> insert (normalized_key (strip raw)) seen = {}"
      by auto
    from Cons.IH [OF d i] False n show ?thesis by (simp add: Let_def)
  qed
qed

lemma subseq_set_mono: "subseq xs ys \<Longrightarrow> set xs \<subseteq> set ys"
  by (induction rule: list_emb.induct) auto

lemma smart_dedup_lines:
  assumes "r \<in> set (smart_dedup texto)"
  shows "r \<noteq> [] \<and> strip r = r \<and> CHR 0x0A \<notin> set r"
proof -
  from assms subseq_set_mono [OF dedup_loop_subseq [of "{}" "split_nl texto"]]
  have "r \<in> set (filter (\<lambda>l. l \<noteq> []) (map strip (split_nl texto)))"
    unfolding smart_dedup_def by blast
  then obtain raw where raw: "raw \<in> set (split_nl texto)" "r = strip raw" "r \<noteq> []" by auto
  from split_nl_no_nl [OF raw(1)] set_strip [of raw] raw(2) have "CHR 0x0A \<notin> set r" by auto
  with raw strip_idem show ?thesis by simp
qed

lemma candidate_lines_smart_dedup:
  "candidate_lines (dedup_text texto) = smart_dedup texto"
proof (cases "smart_dedup texto = []")
  case True
  then show ?thesis by (simp add: candidate_lines_def dedup_text_def strip_def)
next
  case False
  have nl: "\<And>l. l \<in> set (smart_dedup texto) \<Longrightarrow> CHR 0x0A \<notin> set l"
    using smart_dedup_lines by blast
  have "split_nl (dedup_text texto) = smart_dedup texto"
    unfolding dedup_text_def by (rule split_nl_join [OF False nl])
  moreover have "map strip (smart_dedup texto) = smart_dedup texto"
    using smart_dedup_lines by (simp add: map_idI)
  moreover have "filter (\<lambda>l. l \<noteq> []) (smart_dedup texto) = smart_dedup texto"
    using smart_dedup_lines by (simp add: filter_id_conv)
  ultimately show ?thesis by (simp add: candidate_lines_def)
qed

lemma smart_dedup_no_duplicates:
  "distinct (map normalized_key (candidate_lines texto)) \<Longrightarrow> smart_dedup texto = candidate_lines texto"
  unfolding smart_dedup_def candidate_lines_def
  by (rule dedup_loop_no_duplicates) simp_all

lemma smart_dedup_distinct: "distinct (map normalized_key (smart_dedup texto))"
  unfolding smart_dedup_def using dedup_loop_keys [of "{}"] by blast

lemma smart_dedup_idem: "smart_dedup (dedup_text texto) = smart_dedup texto"
proof -
  have "distinct (map normalized_key (candidate_lines (dedup_text texto)))"
    by (simp only: candidate_lines_smart_dedup smart_dedup_distinct)
  from smart_dedup_no_duplicates [OF this] show ?thesis
    by (simp only: candidate_lines_smart_dedup)
qed




section \<open>Properties of the whitespace normalisation\<close>

lemma single_spaced_append:
  "single_spaced (xs @ ys) \<longleftrightarrow>
     single_spaced xs \<and> single_spaced ys
     \<and> \<not> (xs \<noteq> [] \<and> ys \<noteq> [] \<and> last xs = CHR '' '' \<and> hd ys = CHR '' '')"
proof (induction xs)
  case Nil
  then show ?case by simp
next
  case (Cons a xs)
  show ?case
  proof (cases xs)
    case Nil
    then show ?thesis by (cases ys) auto
  next
    case (Cons b r)
    with Cons.IH show ?thesis by auto
  qed
qed

lemma single_spaced_rev: "single_spaced (rev s) = single_spaced s"
proof (induction s rule: single_spaced.induct)
  case (1 a b r)
  have "single_spaced (rev (a # b # r)) = single_spaced (rev (b # r) @ [a])" by simp
  also have "\<dots> = (single_spaced (rev (b # r)) \<and> \<not> (last (rev (b # r)) = CHR '' '' \<and> a = CHR '' ''))"
    by (simp only: single_spaced_append) auto
  also have "last (rev (b # r)) = b" by simp
  finally show ?case using 1 by auto
qed simp_all

lemma single_spaced_dropWhile: "single_spaced s \<Longrightarrow> single_spaced (dropWhile P s)"
proof -
  assume "single_spaced s"
  then have "single_spaced (takeWhile P s @ dropWhile P s)" by simp
  then show ?thesis by (simp only: single_spaced_append)
qed

lemma single_spaced_strip: "single_spaced s \<Longrightarrow> single_spaced (strip s)"
  by (simp add: strip_def single_spaced_rev single_spaced_dropWhile)

lemma join_split_nl: "join [CHR 0x0A] (split_nl s) = s"
proof (induction s)
  case Nil
  then show ?case by simp
next
  case (Cons c cs)
  obtain h r where hr: "split_nl cs = h # r" by (cases "split_nl cs") (auto simp: split_nl_not_Nil)
  show ?case
  proof (cases "c = CHR 0x0A")
    case True
    with Cons hr show ?thesis by simp
  next
    case False
    with Cons hr show ?thesis by (cases r) auto
  qed
qed

lemma single_spaced_join:
  "single_spaced (join sep ls) \<Longrightarrow> l \<in> set ls \<Longrightarrow> single_spaced l"
proof (induction sep ls rule: join.induct)
  case (1 sep)
  then show ?case by simp
next
  case (2 sep x)
  then show ?case by simp
next
  case (3 sep x y r)
  from "3.prems"(1) have "single_spaced x" "single_spaced (join sep (y # r))"
    by (simp_all add: single_spaced_append)
  with 3 show ?case by auto
qed

lemma set_join: "l \<in> set ls \<Longrightarrow> set l \<subseteq> set (join sep ls)"
  by (induction sep ls rule: join.induct) auto

lemma set_collapse_blank_lines: "set (collapse_blank_lines s) \<subseteq> set s"
proof (induction s rule: collapse_blank_lines.induct)
  case 1
  then show ?case by simp
next
  case (2 c cs)
  show ?case
  proof (cases "c = CHR 0x0A \<and> CHR 0x0A \<in> set (takeWhile is_space cs)")
    case True
    with 2 have "set (collapse_blank_lines (c # cs))
        \<subseteq> insert c (set (drop (length (takeWhile is_space cs)
              - length (after_last_nl (takeWhile is_space cs))) cs))"
      by auto
    also have "\<dots> \<subseteq> set (c # cs)" by (auto dest: in_set_dropD)
    finally show ?thesis .
  next
    case False
    with 2 show ?thesis by auto
  qed
qed

lemma collapse_runs_head:
  "\<not> P c \<Longrightarrow> collapse_runs P (c # cs) = c # collapse_runs P cs"
  by simp

lemma set_collapse_runs: "set (collapse_runs P s) \<subseteq> insert (CHR '' '') {c \<in> set s. \<not> P c}"
proof (induction P s rule: collapse_runs.induct)
  case (1 P)
  then show ?case by simp
next
  case (2 P c cs)
  show ?case
  proof (cases "P c")
    case True
    with 2 have "set (collapse_runs P (c # cs))
        \<subseteq> insert (CHR '' '') {x \<in> set (dropWhile P cs). \<not> P x}" by auto
    also have "\<dots> \<subseteq> insert (CHR '' '') {x \<in> set (c # cs). \<not> P x}"
      by (auto dest: set_dropWhileD)
    finally show ?thesis .
  next
    case False
    with 2 show ?thesis by auto
  qed
qed

lemma single_spaced_collapse_runs:
  "P (CHR '' '') \<Longrightarrow> single_spaced (collapse_runs P s)"
proof (induction P s rule: collapse_runs.induct)
  case (1 P)
  then show ?case by simp
next
  case (2 P c cs)
  note sp = \<open>P (CHR '' '')\<close>
  show ?case
  proof (cases "P c")
    case True
    show ?thesis
    proof (cases "dropWhile P cs")
      case Nil
      have "collapse_runs P (c # cs) = [CHR '' '']"
        unfolding collapse_runs.simps Nil using True by simp
      then show ?thesis by simp
    next
      case (Cons d ds)
      then have nd: "\<not> P d" by (metis hd_dropWhile list.sel(1) list.distinct(1))
      with sp have d: "d \<noteq> CHR '' ''" by auto
      from "2.IH"(1) [OF True sp] have "single_spaced (collapse_runs P (d # ds))"
        by (simp only: Cons)
      with nd have "single_spaced (d # collapse_runs P ds)" by simp
      with d have "single_spaced (CHR '' '' # d # collapse_runs P ds)" by simp
      moreover have "collapse_runs P (c # cs) = CHR '' '' # d # collapse_runs P ds"
        unfolding collapse_runs.simps(2) [of P c cs] Cons using True nd by simp
      ultimately show ?thesis by simp
    qed
  next
    case False
    with sp have c: "c \<noteq> CHR '' ''" by auto
    from "2.IH"(2) [OF False sp] have "single_spaced (collapse_runs P cs)" .
    with False c show ?thesis by (cases "collapse_runs P cs") simp_all
  qed
qed

lemma normalize_whitespace_props:
  "CHR 0xA0 \<notin> set (normalize_whitespace t) \<and> CHR 0x09 \<notin> set (normalize_whitespace t)
   \<and> single_spaced (normalize_whitespace t)"
proof -
  define x where "x = map (\<lambda>c. if c = CHR 0xA0 then CHR '' '' else c) t"
  define y where "y = collapse_blank_lines x"
  have n: "normalize_whitespace t = collapse_runs (\<lambda>c. c = CHR '' '' \<or> c = CHR 0x09) y"
    by (simp add: normalize_whitespace_def x_def y_def)
  have "CHR 0xA0 \<notin> set x" by (auto simp: x_def)
  with set_collapse_blank_lines [of x] have "CHR 0xA0 \<notin> set y" by (auto simp: y_def)
  with set_collapse_runs [of "\<lambda>c. c = CHR '' '' \<or> c = CHR 0x09" y]
  have a: "CHR 0xA0 \<notin> set (normalize_whitespace t)" unfolding n by auto
  from set_collapse_runs [of "\<lambda>c. c = CHR '' '' \<or> c = CHR 0x09" y]
  have b: "CHR 0x09 \<notin> set (normalize_whitespace t)" unfolding n by auto
  have c: "single_spaced (normalize_whitespace t)"
    unfolding n by (rule single_spaced_collapse_runs) simp
  from a b c show ?thesis by simp
qed

lemma collapse_runs_fixed:
  "CHR 0x09 \<notin> set s \<Longrightarrow> single_spaced s
   \<Longrightarrow> collapse_runs (\<lambda>c. c = CHR '' '' \<or> c = CHR 0x09) s = s"
proof (induction s rule: single_spaced.induct)
  case (1 a b r)
  then show ?case by auto
qed simp_all

lemma collapse_blank_lines_line:
  "CHR 0x0A \<notin> set l \<Longrightarrow> collapse_blank_lines (l @ s) = l @ collapse_blank_lines s"
  by (induction l) auto

lemma collapse_blank_lines_no_nl: "CHR 0x0A \<notin> set l \<Longrightarrow> collapse_blank_lines l = l"
  using collapse_blank_lines_line [of l "[]"] by simp

lemma collapse_blank_lines_join:
  "(\<And>r. r \<in> set out \<Longrightarrow> r \<noteq> [] \<and> \<not> is_space (hd r) \<and> CHR 0x0A \<notin> set r)
   \<Longrightarrow> collapse_blank_lines (join [CHR 0x0A] out) = join [CHR 0x0A] out"
proof (induction "[CHR 0x0A]" out rule: join.induct)
  case 1
  then show ?case by simp
next
  case (2 x)
  then show ?case by (simp add: collapse_blank_lines_no_nl)
next
  case (3 x y r)
  have x: "CHR 0x0A \<notin> set x" using "3.prems" [of x] by simp
  have y: "y \<noteq> []" "\<not> is_space (hd y)" using "3.prems" [of y] by simp_all
  then obtain a t where at: "y = a # t" "\<not> is_space a" by (cases y) auto
  have "takeWhile is_space (join [CHR 0x0A] (y # r)) = []"
    using at by (cases r) simp_all
  then have "collapse_blank_lines (CHR 0x0A # join [CHR 0x0A] (y # r))
      = CHR 0x0A # collapse_blank_lines (join [CHR 0x0A] (y # r))" by simp
  moreover have "collapse_blank_lines (join [CHR 0x0A] (y # r)) = join [CHR 0x0A] (y # r)"
    using "3.hyps" "3.prems" by simp
  ultimately show ?case using x by (simp add: collapse_blank_lines_line)
qed

lemma single_spaced_join_nl:
  "(\<And>r. r \<in> set out \<Longrightarrow> single_spaced r) \<Longrightarrow> single_spaced (join [CHR 0x0A] out)"
proof (induction "[CHR 0x0A]" out rule: join.induct)
  case 1
  then show ?case by simp
next
  case (2 x)
  then show ?case by simp
next
  case (3 x y r)
  have "single_spaced (join [CHR 0x0A] (y # r))" using "3.hyps" "3.prems" by simp
  then have "single_spaced (CHR 0x0A # join [CHR 0x0A] (y # r))"
    by (cases "join [CHR 0x0A] (y # r)") simp_all
  moreover have "single_spaced x" using "3.prems" by simp
  ultimately show ?case by (simp add: single_spaced_append)
qed

lemma set_join_nl: "set (join [CHR 0x0A] out) \<subseteq> insert (CHR 0x0A) (\<Union> (set ` set out))"
  by (induction "[CHR 0x0A]" out rule: join.induct) auto

lemma stripped_head: "strip r = r \<Longrightarrow> r \<noteq> [] \<Longrightarrow> \<not> is_space (hd r)"
proof -
  assume s: "strip r = r" and n: "r \<noteq> []"
  show ?thesis
  proof (cases "dropWhile is_space r")
    case Nil
    have "strip r = []" unfolding strip_cases Nil by simp
    with s n show ?thesis by simp
  next
    case (Cons a t)
    then have "\<not> is_space a" by (metis hd_dropWhile list.sel(1) list.distinct(1))
    moreover from Cons s have "hd r = a" by (simp add: strip_cases) (metis list.sel(1))
    ultimately show ?thesis by simp
  qed
qed

lemma map_replace_id: "c \<notin> set s \<Longrightarrow> map (\<lambda>x. if x = c then d else x) s = s"
  by (induction s) auto

lemma normalize_whitespace_dedup_text:
  assumes "CHR 0xA0 \<notin> set u" "CHR 0x09 \<notin> set u" "single_spaced u"
  shows "normalize_whitespace (dedup_text u) = dedup_text u"
proof -
  define out where "out = smart_dedup u"
  have lines: "\<And>r. r \<in> set out \<Longrightarrow>
      r \<noteq> [] \<and> \<not> is_space (hd r) \<and> CHR 0x0A \<notin> set r \<and> set r \<subseteq> set u \<and> single_spaced r"
  proof -
    fix r assume r: "r \<in> set out"
    from smart_dedup_lines [of r u] r
    have a: "r \<noteq> []" "strip r = r" "CHR 0x0A \<notin> set r" by (simp_all add: out_def)
    from r subseq_set_mono [OF dedup_loop_subseq [of "{}" "split_nl u"]]
    have "r \<in> set (filter (\<lambda>l. l \<noteq> []) (map strip (split_nl u)))"
      unfolding out_def smart_dedup_def by blast
    then obtain raw where raw: "raw \<in> set (split_nl u)" "r = strip raw" by auto
    have "set raw \<subseteq> set u" using set_join [OF raw(1), of "[CHR 0x0A]"] by (simp add: join_split_nl)
    with set_strip [of raw] raw(2) have sub: "set r \<subseteq> set u" by auto
    have "single_spaced raw"
      by (rule single_spaced_join [OF _ raw(1), of "[CHR 0x0A]"]) (simp add: join_split_nl assms(3))
    then have ss: "single_spaced r" unfolding raw(2) by (rule single_spaced_strip)
    from a sub ss stripped_head [OF a(2) a(1)]
    show "r \<noteq> [] \<and> \<not> is_space (hd r) \<and> CHR 0x0A \<notin> set r \<and> set r \<subseteq> set u \<and> single_spaced r"
      by simp
  qed
  define s where "s = join [CHR 0x0A] out"
  have chars: "set s \<subseteq> insert (CHR 0x0A) (set u)"
    using set_join_nl [of out] lines unfolding s_def by blast
  have 1: "map (\<lambda>c. if c = CHR 0xA0 then CHR '' '' else c) s = s"
    using chars assms(1) by (intro map_replace_id) auto
  have 2: "collapse_blank_lines s = s"
    unfolding s_def using lines by (intro collapse_blank_lines_join) blast
  have "CHR 0x09 \<notin> set s" using chars assms(2) by auto
  moreover have "single_spaced s"
    unfolding s_def using lines by (intro single_spaced_join_nl) blast
  ultimately have 3: "collapse_runs (\<lambda>c. c = CHR '' '' \<or> c = CHR 0x09) s = s"
    by (rule collapse_runs_fixed)
  have "normalize_whitespace s = s"
    unfolding normalize_whitespace_def by (simp only: 1 2 3)
  then show ?thesis by (simp add: s_def out_def dedup_text_def)
qed

lemma steps_5_6_idempotent:
  "dedup_text (normalize_whitespace (dedup_text (normalize_whitespace t)))
     = dedup_text (normalize_whitespace t)"
proof -
  have "normalize_whitespace (dedup_text (normalize_whitespace t)) = dedup_text (normalize_whitespace t)"
    using normalize_whitespace_props [of t] by (intro normalize_whitespace_dedup_text) simp_all
  moreover have "dedup_text (dedup_text (normalize_whitespace t)) = dedup_text (normalize_whitespace t)"
    by (simp add: dedup_text_def [of "dedup_text _"] smart_dedup_idem) (simp add: dedup_text_def)
  ultimately show ?thesis by simp
qed

section \<open>Running the extractor again\<close>

lemma prune_no_tag: "\<not> is_tag n \<Longrightarrow> m \<in> set (prune p n) \<Longrightarrow> \<not> is_tag m"
  by (cases n) (auto split: if_splits)

lemma prune_all_no_tags:
  "\<forall>n \<in> set soup. \<not> is_tag n \<Longrightarrow> \<forall>n \<in> set (prune_all p soup). \<not> is_tag n"
  by (auto simp: prune_all_def dest: prune_no_tag)

lemma decode_cfemail_tags_no_tag: "\<not> is_tag n \<Longrightarrow> \<not> is_tag (decode_cfemail_tags n)"
  by (cases n) auto

lemma decode_protected_links_no_tag: "\<not> is_tag n \<Longrightarrow> \<not> is_tag (decode_protected_links n)"
  by (cases n) auto

lemma tags_no_tag: "\<not> is_tag n \<Longrightarrow> tags n = []"
  by (cases n) auto

lemma find_all_no_tags: "\<forall>n \<in> set soup. \<not> is_tag n \<Longrightarrow> find_all names soup = []"
  by (simp add: find_all_def descendant_tags_def tags_no_tag)

lemma clean_html_no_tags:
  assumes "\<forall>n \<in> set soup. \<not> is_tag n"
  shows "clean_html soup = []"
proof -
  define soup1 where "soup1 = prune_all (\<lambda>e. is_tag e \<and> tag_name e \<in> set [''script'', ''style'', ''noscript'']) soup"
  define soup2 where "soup2 = prune_all is_comment soup1"
  define soup3 where "soup3 = map decode_cfemail_tags soup2"
  define soup4 where "soup4 = map decode_protected_links soup3"
  define soup5 where "soup5 = prune_all is_hidden soup4"
  have 1: "\<forall>n \<in> set soup1. \<not> is_tag n" unfolding soup1_def by (rule prune_all_no_tags [OF assms])
  have 2: "\<forall>n \<in> set soup2. \<not> is_tag n" unfolding soup2_def by (rule prune_all_no_tags [OF 1])
  have 3: "\<forall>n \<in> set soup3. \<not> is_tag n"
    using 2 by (auto simp: soup3_def decode_cfemail_tags_no_tag)
  have 4: "\<forall>n \<in> set soup4. \<not> is_tag n"
    using 3 by (auto simp: soup4_def decode_protected_links_no_tag)
  have 5: "\<forall>n \<in> set soup5. \<not> is_tag n" unfolding soup5_def by (rule prune_all_no_tags [OF 4])
  have "extract_lines soup5 = []"
    by (simp add: extract_lines_def find_all_no_tags [OF 5] List.map_filter_def)
  then have "extract_text soup = []"
    unfolding extract_text_def Let_def soup1_def [symmetric] soup2_def [symmetric]
      soup3_def [symmetric] soup4_def [symmetric] soup5_def [symmetric]
    by (simp add: normalize_whitespace_def)
  then show ?thesis
    by (simp add: clean_html_def dedup_text_def smart_dedup_def strip_def)
qed

text \<open>
  C2 (as amended). Steps 5 and 6 of the Text Extractor, whitespace normalisation and
  deduplication, are idempotent on line text, and so is the deduplication alone: run on
  their own output, and so on the output of \<open>clean_html\<close>, they return it unchanged. When
  no two candidate lines of a text share a dedup key, the deduplication returns the text
  with every line trimmed and the empty lines left out, nothing else changed.
\<close>

theorem dedup_text_idempotent:
  "dedup_text (dedup_text texto) = dedup_text texto
   \<and> dedup_text (normalize_whitespace (dedup_text (normalize_whitespace texto)))
       = dedup_text (normalize_whitespace texto)
   \<and> dedup_text (normalize_whitespace (clean_html soup)) = clean_html soup
   \<and> (distinct (map normalized_key (candidate_lines texto))
        \<longrightarrow> dedup_text texto = join [CHR 0x0A] (candidate_lines texto))"
proof -
  have i: "\<And>t. dedup_text (dedup_text t) = dedup_text t"
    by (simp add: dedup_text_def [of "dedup_text _"] smart_dedup_idem) (simp add: dedup_text_def)
  have c: "dedup_text (normalize_whitespace (clean_html soup)) = clean_html soup"
    unfolding clean_html_def extract_text_def Let_def by (rule steps_5_6_idempotent)
  have n: "distinct (map normalized_key (candidate_lines texto))
        \<longrightarrow> dedup_text texto = join [CHR 0x0A] (candidate_lines texto)"
    using smart_dedup_no_duplicates [of texto] by (simp add: dedup_text_def)
  show ?thesis
    by (intro conjI) (fact i steps_5_6_idempotent c n)+
qed

theorem dedup_text_idempotent_witness:
  "distinct (map normalized_key (candidate_lines '' Contact us: /x \<newline>\<newline>About''))
   \<and> dedup_text '' Contact us: /x \<newline>\<newline>About'' = ''Contact us: /x\<newline>About''
   \<and> dedup_text ''Contact us: /x\<newline>About'' = ''Contact us: /x\<newline>About''"
proof -
  have d: "distinct (map normalized_key (candidate_lines '' Contact us: /x \<newline>\<newline>About''))"
    by code_simp
  have j: "join [CHR 0x0A] (candidate_lines '' Contact us: /x \<newline>\<newline>About'') = ''Contact us: /x\<newline>About''"
    by code_simp
  from dedup_text_idempotent [of "'' Contact us: /x \<newline>\<newline>About''"] d j
  have e: "dedup_text '' Contact us: /x \<newline>\<newline>About'' = ''Contact us: /x\<newline>About''"
    by simp
  from dedup_text_idempotent [of "'' Contact us: /x \<newline>\<newline>About''"] e
  have "dedup_text ''Contact us: /x\<newline>About'' = ''Contact us: /x\<newline>About''"
    by simp
  with d e show ?thesis by blast
qed

text \<open>
  The claim as the specification words it runs the whole Text Extractor on its own output.
  That output is plain text: parsed again it is a tree without tags, step 4 finds no
  element, and the second run returns the empty string (\<open>clean_html_no_tags\<close>). The
  paragraph \<^verbatim>\<open><p>Hello world</p>\<close> gives \<^verbatim>\<open>Hello world\<close>, whose parse tree is one text
  node.
\<close>

theorem clean_html_twice_counterexample:
  "clean_html [Element ''p'' [] [Text ''Hello world'']] = ''Hello world''
   \<and> clean_html [Text ''Hello world''] = []
   \<and> clean_html [Text ''Hello world''] \<noteq> clean_html [Element ''p'' [] [Text ''Hello world'']]"
  by code_simp

end
